theory Spec2Isabelle
  imports Main
begin

section \<open>The LRU cache of \<^verbatim>\<open>open_clip_vit_b32.py\<close>\<close>

text \<open>
  \<^verbatim>\<open>LRUCache\<close> keeps an \<^verbatim>\<open>OrderedDict\<close> and a capacity. The ordered dictionary is an
  association list in iteration order (oldest entry first); Python's unbounded integer
  \<^verbatim>\<open>maxsize\<close> is an \<open>int\<close>. Exceptions are values of \<open>error\<close>.
\<close>

datatype error = KeyError | IndexError | ComputeError

record ('k, 'v) LRUCache =
  cache :: "('k \<times> 'v) list"
  maxsize :: int

text \<open>\<^verbatim>\<open>LRUCache(maxsize)\<close>: an empty dictionary and the given capacity.\<close>

definition init :: "int \<Rightarrow> ('k, 'v) LRUCache" where
  "init m = \<lparr>cache = [], maxsize = m\<rparr>"

text \<open>
  \<^verbatim>\<open>OrderedDict.pop(key)\<close>: removes the binding of the key and returns its value with the
  remaining dictionary; \<open>None\<close> stands for the \<^verbatim>\<open>KeyError\<close> of an absent key.
\<close>

fun pop :: "'k \<Rightarrow> ('k \<times> 'v) list \<Rightarrow> ('v \<times> ('k \<times> 'v) list) option" where
  "pop k [] = None"
| "pop k ((k', v) # xs) =
     (if k' = k then Some (v, xs)
      else (case pop k xs of
              None \<Rightarrow> None
            | Some (w, ys) \<Rightarrow> Some (w, (k', v) # ys)))"

text \<open>
  \<^verbatim>\<open>OrderedDict.popitem(last=False)\<close>: removes the oldest binding; \<^verbatim>\<open>KeyError\<close> on an
  empty dictionary.
\<close>

fun popitem_first :: "('k \<times> 'v) list \<Rightarrow> error + ('k \<times> 'v) list" where
  "popitem_first [] = Inl KeyError"
| "popitem_first (x # xs) = Inr xs"

text \<open>
  \<^verbatim>\<open>cache_get\<close>: on a hit the entry is popped and stored again, which moves it to the
  most recently used end; on a miss the \<^verbatim>\<open>KeyError\<close> is caught and \<^verbatim>\<open>None\<close> returned.
\<close>

definition cache_get :: "('k, 'v) LRUCache \<Rightarrow> 'k \<Rightarrow> 'v option \<times> ('k, 'v) LRUCache" where
  "cache_get c key =
     (case pop key (cache c) of
        Some (value, rest) \<Rightarrow> (Some value, c\<lparr>cache := rest @ [(key, value)]\<rparr>)
      | None \<Rightarrow> (None, c))"

text \<open>
  \<^verbatim>\<open>cache_set\<close>: a present key is popped; for an absent key the handler evicts the oldest
  entry when the dictionary has reached \<^verbatim>\<open>maxsize\<close>, and the \<^verbatim>\<open>KeyError\<close> of \<^verbatim>\<open>popitem\<close>
  on an empty dictionary escapes. Then the binding is stored at the end.
\<close>

definition cache_set :: "('k, 'v) LRUCache \<Rightarrow> 'k \<Rightarrow> 'v \<Rightarrow> error + ('k, 'v) LRUCache" where
  "cache_set c key value =
     (case pop key (cache c) of
        Some (old, rest) \<Rightarrow> Inr (c\<lparr>cache := rest @ [(key, value)]\<rparr>)
      | None \<Rightarrow>
          (if int (length (cache c)) \<ge> maxsize c then
             (case popitem_first (cache c) of
                Inl e \<Rightarrow> Inl e
              | Inr rest \<Rightarrow> Inr (c\<lparr>cache := rest @ [(key, value)]\<rparr>))
           else Inr (c\<lparr>cache := cache c @ [(key, value)]\<rparr>)))"

text \<open>
  A client's operations on a cache. An operation that raises leaves the dictionary as it
  was: both \<^verbatim>\<open>pop\<close> and \<^verbatim>\<open>popitem\<close> raise before they change anything.
\<close>

datatype ('k, 'v) cache_op = Get 'k | Set 'k 'v

fun exec_op :: "('k, 'v) LRUCache \<Rightarrow> ('k, 'v) cache_op \<Rightarrow> ('k, 'v) LRUCache" where
  "exec_op c (Get k) = snd (cache_get c k)"
| "exec_op c (Set k v) = (case cache_set c k v of Inl e \<Rightarrow> c | Inr c' \<Rightarrow> c')"

text \<open>A run of \<^verbatim>\<open>cache_set\<close> calls, stopping at the first exception.\<close>

fun set_all :: "('k, 'v) LRUCache \<Rightarrow> ('k \<times> 'v) list \<Rightarrow> error + ('k, 'v) LRUCache" where
  "set_all c [] = Inr c"
| "set_all c ((k, v) # kvs) =
     (case cache_set c k v of Inl e \<Rightarrow> Inl e | Inr c' \<Rightarrow> set_all c' kvs)"

section \<open>Batched embedding\<close>

text \<open>
  The first loop of \<^verbatim>\<open>batched_text_embedding\<close> and \<^verbatim>\<open>batched_image_embedding\<close>: every item
  is looked up under its key; a hit is written to its slot of \<^verbatim>\<open>results\<close>, a miss is
  appended to the uncached items and its index to the uncached indices. The text path
  uses the text itself as key, the image path \<^verbatim>\<open>serialize_image\<close>.
\<close>

fun split_loop ::
  "('i \<Rightarrow> 'k) \<Rightarrow> nat \<Rightarrow> 'i list \<Rightarrow> ('k, 'v) LRUCache \<Rightarrow> 'v option list \<Rightarrow> 'i list \<Rightarrow> nat list
     \<Rightarrow> ('k, 'v) LRUCache \<times> 'v option list \<times> 'i list \<times> nat list" where
  "split_loop key idx [] c results uncached uncached_indices =
     (c, results, uncached, uncached_indices)"
| "split_loop key idx (t # ts) c results uncached uncached_indices =
     (case cache_get c (key t) of
        (Some cached_result, c') \<Rightarrow>
          split_loop key (Suc idx) ts c' (results[idx := Some cached_result])
            uncached uncached_indices
      | (None, c') \<Rightarrow>
          split_loop key (Suc idx) ts c' results (uncached @ [t]) (uncached_indices @ [idx]))"

text \<open>
  The second loop: the \<open>i\<close>-th uncached index takes the \<open>i\<close>-th computed row, which is
  stored in the cache and written to its slot. Reading a row, an item or a slot out of
  range raises \<^verbatim>\<open>IndexError\<close>; the cache is returned as the exception leaves it.
\<close>

fun fill_loop ::
  "('i \<Rightarrow> 'k) \<Rightarrow> 'i list \<Rightarrow> 'v list \<Rightarrow> nat \<Rightarrow> nat list \<Rightarrow> ('k, 'v) LRUCache \<Rightarrow> 'v option list
     \<Rightarrow> ('k, 'v) LRUCache \<times> (error + 'v option list)" where
  "fill_loop key items features i [] c results = (c, Inr results)"
| "fill_loop key items features i (idx # rest) c results =
     (if i < length features then
        (if idx < length items then
           (case cache_set c (key (items ! idx)) (features ! i) of
              Inl e \<Rightarrow> (c, Inl e)
            | Inr c' \<Rightarrow>
                (if idx < length results then
                   fill_loop key items features (Suc i) rest c'
                     (results[idx := Some (features ! i)])
                 else (c', Inl IndexError)))
         else (c, Inl IndexError))
      else (c, Inl IndexError))"

text \<open>
  What a call leaves behind: the calls made to the model (each with its argument list),
  the cache afterwards, and the returned \<^verbatim>\<open>embedding\<close> list or the exception raised.
\<close>

record ('i, 'k, 'v) outcome =
  calls :: "'i list list"
  cache_after :: "('k, 'v) LRUCache"
  returned :: "error + 'v option list"

text \<open>
  The body shared by the two methods. The model inference (tokenizer or image transform,
  encoder, normalisation, \<^verbatim>\<open>tolist\<close>) is the parameter \<open>encode\<close>, which returns the rows
  or fails; it is called only when there is an uncached item.
\<close>

definition batched_embedding ::
  "('i \<Rightarrow> 'k) \<Rightarrow> ('i list \<Rightarrow> error + 'v list) \<Rightarrow> ('k, 'v) LRUCache \<Rightarrow> 'i list
     \<Rightarrow> ('i, 'k, 'v) outcome" where
  "batched_embedding key encode c items =
     (case split_loop key 0 items c (replicate (length items) None) [] [] of
        (c1, results, uncached, uncached_indices) \<Rightarrow>
          (if uncached \<noteq> [] then
             (case encode uncached of
                Inl e \<Rightarrow> \<lparr>calls = [uncached], cache_after = c1, returned = Inl e\<rparr>
              | Inr features \<Rightarrow>
                  (case fill_loop key items features 0 uncached_indices c1 results of
                     (c2, r) \<Rightarrow> \<lparr>calls = [uncached], cache_after = c2, returned = r\<rparr>))
           else \<lparr>calls = [], cache_after = c1, returned = Inr results\<rparr>))"

definition batched_text_embedding ::
  "('k list \<Rightarrow> error + 'v list) \<Rightarrow> ('k, 'v) LRUCache \<Rightarrow> 'k list \<Rightarrow> ('k, 'k, 'v) outcome" where
  "batched_text_embedding encode text_cache text =
     batched_embedding (\<lambda>t. t) encode text_cache text"

definition batched_image_embedding ::
  "('i \<Rightarrow> 'k) \<Rightarrow> ('i list \<Rightarrow> error + 'v list) \<Rightarrow> ('k, 'v) LRUCache \<Rightarrow> 'i list
     \<Rightarrow> ('i, 'k, 'v) outcome" where
  "batched_image_embedding serialize_image encode image_cache images =
     batched_embedding serialize_image encode image_cache images"

section \<open>Notions used to state the properties\<close>

text \<open>
  An \<^verbatim>\<open>OrderedDict\<close> holds at most one binding per key; \<open>lookup\<close> reads a key without
  touching the recency order.
\<close>

definition wf_cache :: "('k, 'v) LRUCache \<Rightarrow> bool" where
  "wf_cache c \<longleftrightarrow> distinct (map fst (cache c))"

definition lookup :: "('k, 'v) LRUCache \<Rightarrow> 'k \<Rightarrow> 'v option" where
  "lookup c k = map_of (cache c) k"

text \<open>
  The misses of a batch against a cache: the items whose key has no binding, in input
  order, and their positions, counted from \<open>idx\<close>.
\<close>

definition misses :: "('i \<Rightarrow> 'k) \<Rightarrow> ('k, 'v) LRUCache \<Rightarrow> 'i list \<Rightarrow> 'i list" where
  "misses key c items = filter (\<lambda>t. lookup c (key t) = None) items"

fun miss_indices :: "('i \<Rightarrow> 'k) \<Rightarrow> ('k, 'v) LRUCache \<Rightarrow> nat \<Rightarrow> 'i list \<Rightarrow> nat list" where
  "miss_indices key c idx [] = []"
| "miss_indices key c idx (t # ts) =
     (if lookup c (key t) = None then idx # miss_indices key c (Suc idx) ts
      else miss_indices key c (Suc idx) ts)"

text \<open>The cache after the lookups of the first loop: one \<^verbatim>\<open>cache_get\<close> per item.\<close>

definition after_lookups :: "('i \<Rightarrow> 'k) \<Rightarrow> ('k, 'v) LRUCache \<Rightarrow> 'i list \<Rightarrow> ('k, 'v) LRUCache" where
  "after_lookups key c items = foldl (\<lambda>c t. snd (cache_get c (key t))) c items"

section \<open>Properties of the cache\<close>

lemma pop_None_iff: "pop k xs = None \<longleftrightarrow> k \<notin> fst ` set xs"
  by (induction xs) (auto split: option.splits if_splits)

lemma pop_Some_length: "pop k xs = Some (v, r) \<Longrightarrow> Suc (length r) = length xs"
  by (induction xs arbitrary: r) (auto split: option.splits if_splits)

lemma cache_get_maxsize: "maxsize (snd (cache_get c k)) = maxsize c"
  by (simp add: cache_get_def split: option.splits)

lemma cache_get_length: "length (cache (snd (cache_get c k))) = length (cache c)"
  by (auto simp: cache_get_def dest: pop_Some_length split: option.splits)

lemma cache_set_maxsize: "cache_set c k v = Inr c' \<Longrightarrow> maxsize c' = maxsize c"
  by (auto simp: cache_set_def split: option.splits if_splits sum.splits)

lemma cache_set_bounded:
  assumes "cache_set c k v = Inr c'" and "int (length (cache c)) \<le> maxsize c"
  shows "int (length (cache c')) \<le> maxsize c"
proof (cases "pop k (cache c)")
  case None
  show ?thesis
  proof (cases "cache c")
    case Nil
    with None assms show ?thesis
      by (auto simp: cache_set_def split: if_splits)
  next
    case (Cons x xs)
    with None assms show ?thesis
      by (auto simp: cache_set_def split: if_splits)
  qed
next
  case (Some p)
  obtain w r where p: "p = (w, r)" by (cases p)
  from Some p have "Suc (length r) = length (cache c)" by (simp add: pop_Some_length)
  with Some p assms show ?thesis
    by (auto simp: cache_set_def)
qed

lemma exec_op_maxsize: "maxsize (exec_op c op) = maxsize c"
  by (cases op) (auto simp: cache_get_maxsize cache_set_maxsize split: sum.splits)

lemma exec_op_bounded:
  "int (length (cache c)) \<le> maxsize c \<Longrightarrow> int (length (cache (exec_op c op))) \<le> maxsize c"
  by (cases op) (auto simp: cache_get_length cache_set_bounded split: sum.splits)

lemma foldl_exec_op_inv:
  "int (length (cache c)) \<le> maxsize c \<Longrightarrow>
   int (length (cache (foldl exec_op c ops))) \<le> maxsize c \<and> maxsize (foldl exec_op c ops) = maxsize c"
proof (induction ops arbitrary: c)
  case Nil
  then show ?case by simp
next
  case (Cons op ops)
  have "int (length (cache (exec_op c op))) \<le> maxsize (exec_op c op)"
    using Cons.prems by (simp add: exec_op_bounded exec_op_maxsize)
  from Cons.IH [OF this] show ?case by (simp add: exec_op_maxsize)
qed

text \<open>
  Claim C2. Starting from the empty cache of a capacity \<open>m \<ge> 0\<close>, after any finite
  sequence of \<^verbatim>\<open>cache_get\<close> and \<^verbatim>\<open>cache_set\<close> calls the number of stored entries is
  at most \<open>m\<close>, and the capacity is still \<open>m\<close>. The sequence is arbitrary, so this
  holds after each of its operations.
\<close>

theorem capacity_invariant:
  "0 \<le> m \<Longrightarrow>
   int (length (cache (foldl exec_op (init m) ops))) \<le> m \<and>
   maxsize (foldl exec_op (init m) ops) = m"
  using foldl_exec_op_inv [of "init m" ops] by (simp add: init_def)

text \<open>
  The capacity invariant at capacity 2, on a run that fills the cache, refreshes an
  entry, evicts one and misses one.
\<close>

theorem capacity_invariant_witness:
  "(0::int) \<le> 2 \<and>
   int (length (cache (foldl exec_op (init 2)
      [Set ''a'' (1::nat), Set ''b'' 2, Get ''a'', Set ''c'' 3, Get ''z'']))) \<le> 2 \<and>
   cache (foldl exec_op (init 2)
      [Set ''a'' (1::nat), Set ''b'' 2, Get ''a'', Set ''c'' 3, Get ''z'']) = [(''a'', 1), (''c'', 3)]"
  using capacity_invariant [of 2 "[Set ''a'' (1::nat), Set ''b'' 2, Get ''a'', Set ''c'' 3, Get ''z'']"]
  by (simp add: init_def cache_get_def cache_set_def)

lemma pop_absent: "k \<notin> fst ` set xs \<Longrightarrow> pop k xs = None"
  by (simp add: pop_None_iff)

lemma cache_set_total:
  assumes "1 \<le> maxsize c"
  shows "\<exists>c'. cache_set c k v = Inr c'"
proof (cases "cache c")
  case Nil
  with assms show ?thesis by (simp add: cache_set_def)
next
  case (Cons x xs)
  then show ?thesis by (simp add: cache_set_def split: option.splits)
qed

lemma foldl_exec_op_empty:
  "maxsize c \<le> 0 \<Longrightarrow> cache c = [] \<Longrightarrow> cache (foldl exec_op c ops) = [] \<and> maxsize (foldl exec_op c ops) = maxsize c"
proof (induction ops arbitrary: c)
  case Nil
  then show ?case by simp
next
  case (Cons op ops)
  have "exec_op c op = c"
    using Cons.prems by (cases op) (simp_all add: cache_get_def cache_set_def)
  with Cons show ?case by simp
qed

text \<open>
  Claim C10. A cache built with \<^verbatim>\<open>maxsize = 0\<close> stays empty whatever is done to it, and
  every \<^verbatim>\<open>cache_set\<close> on it raises \<^verbatim>\<open>KeyError\<close> (from \<^verbatim>\<open>popitem\<close> on the empty dictionary);
  with \<^verbatim>\<open>maxsize \<ge> 1\<close>, \<^verbatim>\<open>cache_set\<close> completes in every state.
\<close>

theorem cache_set_maxsize_zero:
  "cache_set (foldl exec_op (init 0) ops) k v = Inl KeyError \<and>
   (\<forall>c::('k, 'v) LRUCache. 1 \<le> maxsize c \<longrightarrow> (\<exists>c'. cache_set c k v = Inr c'))"
proof -
  have "cache (foldl exec_op (init 0 :: ('k, 'v) LRUCache) ops) = [] \<and> maxsize (foldl exec_op (init 0 :: ('k, 'v) LRUCache) ops) = 0"
    using foldl_exec_op_empty [of "init 0" ops] by (simp add: init_def)
  then have "cache_set (foldl exec_op (init 0) ops) k v = Inl KeyError"
    by (simp add: cache_set_def)
  then show ?thesis by (simp add: cache_set_total)
qed

text \<open>
  At capacity 0 a \<^verbatim>\<open>cache_set\<close> after an attempted get and set raises; at capacity 1 the
  same call on the empty cache stores the binding.
\<close>

theorem cache_set_maxsize_zero_witness:
  "cache_set (foldl exec_op (init 0) [Get ''a'', Set ''a'' (1::nat)]) ''b'' 2 = Inl KeyError \<and>
   1 \<le> maxsize (init 1 :: (string, nat) LRUCache) \<and>
   (\<exists>c'. cache_set (init 1 :: (string, nat) LRUCache) ''b'' 2 = Inr c') \<and>
   cache_set (init 1) ''b'' (2::nat) = Inr \<lparr>cache = [(''b'', 2)], maxsize = 1\<rparr>"
proof -
  have h: "1 \<le> maxsize (init 1 :: (string, nat) LRUCache)"
    by (simp add: init_def)
  note t = cache_set_maxsize_zero [of "[Get ''a'', Set ''a'' (1::nat)]" "''b''" 2]
  from t have a: "cache_set (foldl exec_op (init 0) [Get ''a'', Set ''a'' (1::nat)]) ''b'' 2 = Inl KeyError"
    by (rule conjunct1)
  from t h have b: "\<exists>c'. cache_set (init 1 :: (string, nat) LRUCache) ''b'' 2 = Inr c'"
    by blast
  have c: "cache_set (init 1) ''b'' (2::nat) = Inr \<lparr>cache = [(''b'', 2)], maxsize = 1\<rparr>"
    by (simp add: init_def cache_set_def)
  from a h b c show ?thesis by blast
qed

lemma set_all_snoc:
  "set_all c (kvs @ [(k, v)]) =
     (case set_all c kvs of Inl e \<Rightarrow> Inl e | Inr c' \<Rightarrow> cache_set c' k v)"
  by (induction kvs arbitrary: c) (auto split: sum.splits)

lemma cache_set_fresh_room:
  "k \<notin> fst ` set (cache c) \<Longrightarrow> int (length (cache c)) < maxsize c \<Longrightarrow>
   cache_set c k v = Inr (c\<lparr>cache := cache c @ [(k, v)]\<rparr>)"
  by (simp add: cache_set_def pop_absent)

lemma cache_set_fresh_full:
  "k \<notin> fst ` set (cache c) \<Longrightarrow> maxsize c \<le> int (length (cache c)) \<Longrightarrow> cache c \<noteq> [] \<Longrightarrow>
   cache_set c k v = Inr (c\<lparr>cache := tl (cache c) @ [(k, v)]\<rparr>)"
  by (cases "cache c") (simp_all add: cache_set_def pop_absent)

lemma set_all_fill:
  "distinct (map fst (cache c @ kvs)) \<Longrightarrow> int (length (cache c) + length kvs) \<le> maxsize c \<Longrightarrow>
   set_all c kvs = Inr (c\<lparr>cache := cache c @ kvs\<rparr>)"
proof (induction kvs arbitrary: c)
  case Nil
  then show ?case by simp
next
  case (Cons kv kvs)
  obtain k v where kv: "kv = (k, v)" by (cases kv)
  let ?c' = "c\<lparr>cache := cache c @ [(k, v)]\<rparr>"
  from Cons.prems kv have step: "cache_set c k v = Inr ?c'"
    by (intro cache_set_fresh_room) auto
  from Cons.prems kv have "set_all ?c' kvs = Inr (?c'\<lparr>cache := cache ?c' @ kvs\<rparr>)"
    by (intro Cons.IH) auto
  with step kv show ?case by simp
qed

lemma set_all_init:
  "distinct (map fst kvs) \<Longrightarrow> int (length kvs) \<le> m \<Longrightarrow>
   set_all (init m) kvs = Inr \<lparr>cache = kvs, maxsize = m\<rparr>"
  using set_all_fill [of "init m" kvs] by (simp add: init_def)

text \<open>
  Claim C3. With capacity \<open>C \<ge> 1\<close> and \<open>C + 1\<close> bindings of pairwise distinct keys set
  in order into the empty cache, the first \<open>C\<close> fill the cache in insertion order, and
  setting the last one evicts exactly the first: what remains is the second to the last
  binding, in order.
\<close>

theorem eviction_order:
  assumes "1 \<le> C" and "length kvs = Suc C" and "distinct (map fst kvs)"
  shows "set_all (init (int C)) (butlast kvs) = Inr \<lparr>cache = butlast kvs, maxsize = int C\<rparr> \<and>
         set_all (init (int C)) kvs = Inr \<lparr>cache = tl kvs, maxsize = int C\<rparr>"
proof -
  from assms obtain ys k v where kvs: "kvs = ys @ [(k, v)]"
    by (cases kvs rule: rev_cases) auto
  with assms have ys: "length ys = C" "distinct (map fst ys)" "k \<notin> fst ` set ys" "ys \<noteq> []"
    by auto
  then have fill: "set_all (init (int C)) ys = Inr \<lparr>cache = ys, maxsize = int C\<rparr>"
    by (simp add: set_all_init)
  have "cache_set \<lparr>cache = ys, maxsize = int C\<rparr> k v = Inr \<lparr>cache = tl ys @ [(k, v)], maxsize = int C\<rparr>"
    using ys cache_set_fresh_full [of k "\<lparr>cache = ys, maxsize = int C\<rparr>" v] by simp
  with fill kvs ys show ?thesis
    by (simp add: set_all_snoc)
qed

text \<open>
  Eviction order at capacity 2 with three keys.
\<close>

theorem eviction_order_witness:
  "(1::nat) \<le> 2 \<and> length [(''k1'', 1::nat), (''k2'', 2), (''k3'', 3)] = Suc 2 \<and>
   distinct (map fst [(''k1'', 1::nat), (''k2'', 2), (''k3'', 3)]) \<and>
   set_all (init 2) [(''k1'', 1::nat), (''k2'', 2)] = Inr \<lparr>cache = [(''k1'', 1), (''k2'', 2)], maxsize = 2\<rparr> \<and>
   set_all (init 2) [(''k1'', 1::nat), (''k2'', 2), (''k3'', 3)] = Inr \<lparr>cache = [(''k2'', 2), (''k3'', 3)], maxsize = 2\<rparr>"
  using eviction_order [of 2 "[(''k1'', 1::nat), (''k2'', 2), (''k3'', 3)]"]
  by simp

text \<open>
  Claim C4. With capacity \<open>C \<ge> 2\<close>, after \<open>C\<close> distinct keys have filled the empty cache,
  \<^verbatim>\<open>cache_get\<close> of the first key returns its value and moves it to the most recently
  used end, and setting a fresh key then evicts the second key; the first stays.
\<close>

theorem recency_refresh:
  assumes "2 \<le> C" and "length kvs = C" and "distinct (map fst kvs)" and "k \<notin> fst ` set kvs"
  shows "set_all (init (int C)) kvs = Inr \<lparr>cache = kvs, maxsize = int C\<rparr> \<and>
         cache_get \<lparr>cache = kvs, maxsize = int C\<rparr> (fst (hd kvs)) =
           (Some (snd (hd kvs)), \<lparr>cache = tl kvs @ [hd kvs], maxsize = int C\<rparr>) \<and>
         cache_set \<lparr>cache = tl kvs @ [hd kvs], maxsize = int C\<rparr> k v =
           Inr \<lparr>cache = tl (tl kvs) @ [hd kvs, (k, v)], maxsize = int C\<rparr> \<and>
         fst (kvs ! 1) \<notin> fst ` set (tl (tl kvs) @ [hd kvs, (k, v)]) \<and>
         hd kvs \<in> set (tl (tl kvs) @ [hd kvs, (k, v)])"
proof -
  from assms obtain k1 v1 k2 v2 zs where kvs: "kvs = (k1, v1) # (k2, v2) # zs"
    by (cases kvs; cases "tl kvs") auto
  have fill: "set_all (init (int C)) kvs = Inr \<lparr>cache = kvs, maxsize = int C\<rparr>"
    using assms by (simp add: set_all_init)
  have get: "cache_get \<lparr>cache = kvs, maxsize = int C\<rparr> (fst (hd kvs)) =
           (Some (snd (hd kvs)), \<lparr>cache = tl kvs @ [hd kvs], maxsize = int C\<rparr>)"
    by (simp add: kvs cache_get_def)
  have "cache_set \<lparr>cache = tl kvs @ [hd kvs], maxsize = int C\<rparr> k v =
           Inr \<lparr>cache = tl (tl kvs @ [hd kvs]) @ [(k, v)], maxsize = int C\<rparr>"
    using assms kvs cache_set_fresh_full [of k "\<lparr>cache = tl kvs @ [hd kvs], maxsize = int C\<rparr>" v]
    by auto
  then have set: "cache_set \<lparr>cache = tl kvs @ [hd kvs], maxsize = int C\<rparr> k v =
           Inr \<lparr>cache = tl (tl kvs) @ [hd kvs, (k, v)], maxsize = int C\<rparr>"
    by (simp add: kvs)
  have gone: "fst (kvs ! 1) \<notin> fst ` set (tl (tl kvs) @ [hd kvs, (k, v)])"
    using assms kvs by force
  show ?thesis using fill get set gone by (simp add: kvs)
qed

text \<open>
  Recency refresh at capacity 2.
\<close>

theorem recency_refresh_witness:
  "set_all (init 2) [(''k1'', 1::nat), (''k2'', 2)] = Inr \<lparr>cache = [(''k1'', 1), (''k2'', 2)], maxsize = 2\<rparr> \<and>
   cache_get \<lparr>cache = [(''k1'', 1::nat), (''k2'', 2)], maxsize = 2\<rparr> ''k1'' =
     (Some 1, \<lparr>cache = [(''k2'', 2), (''k1'', 1)], maxsize = 2\<rparr>) \<and>
   cache_set \<lparr>cache = [(''k2'', 2), (''k1'', 1::nat)], maxsize = 2\<rparr> ''k3'' 3 =
     Inr \<lparr>cache = [(''k1'', 1), (''k3'', 3)], maxsize = 2\<rparr>"
  using recency_refresh [of 2 "[(''k1'', 1::nat), (''k2'', 2)]" "''k3''" 3]
  by simp

section \<open>Properties of batched embedding\<close>

lemma pop_Some_lookup:
  "pop k xs = Some (v, r) \<Longrightarrow> map_of xs k = Some v"
  by (induction xs arbitrary: r) (auto split: option.splits if_splits)

lemma pop_Some_keys:
  "pop k xs = Some (v, r) \<Longrightarrow> distinct (map fst xs) \<Longrightarrow>
   distinct (map fst r) \<and> k \<notin> fst ` set r \<and> fst ` set r = fst ` set xs - {k}"
proof (induction xs arbitrary: r)
  case Nil
  then show ?case by simp
next
  case (Cons x xs)
  obtain k' w where x: "x = (k', w)" by (cases x)
  show ?case
  proof (cases "k' = k")
    case True
    with Cons.prems x show ?thesis by auto
  next
    case False
    with Cons.prems x obtain ys where ys: "pop k xs = Some (v, ys)" "r = (k', w) # ys"
      by (auto split: option.splits)
    with Cons.IH [OF ys(1)] Cons.prems x False show ?thesis by auto
  qed
qed

lemma pop_Some_map_of:
  "pop k xs = Some (v, r) \<Longrightarrow> k' \<noteq> k \<Longrightarrow> map_of r k' = map_of xs k'"
  by (induction xs arbitrary: r) (auto split: option.splits if_splits)

lemma pop_None_map_of: "pop k xs = None \<longleftrightarrow> map_of xs k = None"
  by (simp add: pop_None_iff map_of_eq_None_iff)

lemma pop_set:
  "pop k xs = Some (v, r) \<Longrightarrow> distinct (map fst xs) \<Longrightarrow> set xs = insert (k, v) (set r)"
proof (induction xs arbitrary: r)
  case Nil
  then show ?case by simp
next
  case (Cons x xs)
  then show ?case by (cases x) (auto split: option.splits if_splits)
qed

lemma cache_get_result: "fst (cache_get c k) = lookup c k"
proof (cases "pop k (cache c)")
  case None
  then have "map_of (cache c) k = None" by (simp add: pop_None_map_of)
  with None show ?thesis by (simp add: cache_get_def lookup_def)
next
  case (Some p)
  then show ?thesis by (cases p) (simp add: cache_get_def lookup_def pop_Some_lookup)
qed

lemma cache_get_wf: "wf_cache c \<Longrightarrow> wf_cache (snd (cache_get c k))"
  by (auto simp: cache_get_def wf_cache_def dest: pop_Some_keys split: option.splits)

lemma cache_get_lookup:
  assumes "wf_cache c"
  shows "lookup (snd (cache_get c k)) = lookup c"
proof (cases "pop k (cache c)")
  case None
  then show ?thesis by (simp add: cache_get_def)
next
  case (Some p)
  obtain v r where p: "p = (v, r)" by (cases p)
  have "map_of (r @ [(k, v)]) k' = map_of (cache c) k'" for k'
  proof (cases "k' = k")
    case True
    from Some p assms have "k \<notin> fst ` set r"
      by (auto simp: wf_cache_def dest: pop_Some_keys)
    then have "map_of r k = None" by (simp add: map_of_eq_None_iff)
    with True Some p show ?thesis by (simp add: map_add_def pop_Some_lookup)
  next
    case False
    with Some p have "map_of r k' = map_of (cache c) k'" by (simp add: pop_Some_map_of)
    with False show ?thesis by (simp add: map_add_def split: option.splits)
  qed
  with Some p show ?thesis by (simp add: cache_get_def lookup_def fun_eq_iff)
qed

lemma cache_get_set:
  "wf_cache c \<Longrightarrow> set (cache (snd (cache_get c k))) = set (cache c)"
  by (auto simp: cache_get_def wf_cache_def dest: pop_set split: option.splits)

lemma after_lookups_Cons:
  "after_lookups key c (t # ts) = after_lookups key (snd (cache_get c (key t))) ts"
  by (simp add: after_lookups_def)

lemma after_lookups_Nil: "after_lookups key c [] = c"
  by (simp add: after_lookups_def)

lemma after_lookups_props:
  "wf_cache c \<Longrightarrow>
   wf_cache (after_lookups key c ts) \<and> lookup (after_lookups key c ts) = lookup c \<and>
   set (cache (after_lookups key c ts)) = set (cache c) \<and>
   maxsize (after_lookups key c ts) = maxsize c"
proof (induction ts arbitrary: c)
  case Nil
  then show ?case by (simp add: after_lookups_Nil)
next
  case (Cons t ts)
  from Cons.prems have "wf_cache (snd (cache_get c (key t)))" by (rule cache_get_wf)
  from Cons.IH [OF this] Cons.prems show ?case
    by (simp add: after_lookups_Cons cache_get_lookup cache_get_set cache_get_maxsize)
qed

lemma misses_Cons:
  "misses key c (t # ts) = (if lookup c (key t) = None then t # misses key c ts else misses key c ts)"
  by (simp add: misses_def)

lemma misses_cong: "lookup c' = lookup c \<Longrightarrow> misses key c' ts = misses key c ts"
  by (simp add: misses_def)

lemma miss_indices_cong: "lookup c' = lookup c \<Longrightarrow> miss_indices key c' idx ts = miss_indices key c idx ts"
  by (induction ts arbitrary: idx) simp_all

lemma split_loop_result:
  assumes "wf_cache c" and "length pre = idx"
  shows "split_loop key idx ts c (pre @ replicate (length ts) None) uts uis =
           (after_lookups key c ts, pre @ map (\<lambda>t. lookup c (key t)) ts,
            uts @ misses key c ts, uis @ miss_indices key c idx ts)"
  using assms
proof (induction ts arbitrary: c pre idx uts uis)
  case Nil
  then show ?case by (simp add: after_lookups_Nil misses_def)
next
  case (Cons t ts)
  obtain c' where cg: "cache_get c (key t) = (lookup c (key t), c')"
    using cache_get_result [of c "key t"] by (cases "cache_get c (key t)") simp
  then have c': "c' = snd (cache_get c (key t))" by simp
  have wf': "wf_cache c'" using Cons.prems(1) unfolding c' by (rule cache_get_wf)
  have lk: "lookup c' = lookup c" using Cons.prems(1) unfolding c' by (rule cache_get_lookup)
  have len: "length (pre @ [lookup c (key t)]) = Suc idx" using Cons.prems(2) by simp
  note IH = Cons.IH [OF wf' len]
  have al: "after_lookups key c (t # ts) = after_lookups key c' ts"
    by (simp add: after_lookups_Cons c')
  show ?case
  proof (cases "lookup c (key t)")
    case None
    have "pre @ replicate (length (t # ts)) None = (pre @ [None]) @ replicate (length ts) None"
      by simp
    with None cg IH [of "uts @ [t]" "uis @ [idx]"] show ?thesis
      by (simp add: al misses_Cons lk misses_cong [OF lk] miss_indices_cong [OF lk])
  next
    case (Some v)
    have "(pre @ replicate (length (t # ts)) None)[idx := Some v] = (pre @ [Some v]) @ replicate (length ts) None"
      using Cons.prems(2) by (simp add: list_update_append)
    with Some cg IH [of uts uis] show ?thesis
      by (simp add: al misses_Cons lk misses_cong [OF lk] miss_indices_cong [OF lk]
               del: replicate.simps)
  qed
qed

lemma length_miss_indices: "length (miss_indices key c idx ts) = length (misses key c ts)"
  by (induction ts arbitrary: idx) (simp_all add: misses_def)

lemma set_miss_indices:
  "i \<in> set (miss_indices key c idx ts) \<longleftrightarrow>
     idx \<le> i \<and> i < idx + length ts \<and> lookup c (key (ts ! (i - idx))) = None"
proof (induction ts arbitrary: idx)
  case Nil
  then show ?case by simp
next
  case (Cons t ts)
  have "i - idx = Suc (i - Suc idx)" if "Suc idx \<le> i" using that by arith
  then have nth: "(t # ts) ! (i - idx) = ts ! (i - Suc idx)" if "Suc idx \<le> i"
    using that by simp
  show ?case
  proof (cases "i = idx")
    case True
    with Cons.IH [of "Suc idx"] show ?thesis by auto
  next
    case False
    then have "idx \<le> i \<longleftrightarrow> Suc idx \<le> i" by arith
    with False show ?thesis by (auto simp: Cons.IH nth)
  qed
qed

lemma distinct_miss_indices: "distinct (miss_indices key c idx ts)"
  by (induction ts arbitrary: idx) (simp_all add: set_miss_indices)

lemma nth_miss_indices:
  "j < length ts \<Longrightarrow> lookup c (key (ts ! j)) = None \<Longrightarrow>
   length (misses key c (take j ts)) < length (miss_indices key c idx ts) \<and>
   miss_indices key c idx ts ! length (misses key c (take j ts)) = idx + j"
proof (induction ts arbitrary: idx j)
  case Nil
  then show ?case by simp
next
  case (Cons t ts)
  show ?case
  proof (cases j)
    case 0
    with Cons.prems show ?thesis by (simp add: misses_def)
  next
    case (Suc j')
    with Cons.prems have "j' < length ts" "lookup c (key (ts ! j')) = None" by simp_all
    from Cons.IH [OF this, of "Suc idx"] Suc show ?thesis by (simp add: misses_Cons)
  qed
qed

lemma fill_loop_ok:
  assumes "1 \<le> maxsize c" and "i + length idxs \<le> length feats"
    and "\<forall>idx\<in>set idxs. idx < length items \<and> idx < length res" and "distinct idxs"
  shows "\<exists>c2 res'. fill_loop key items feats i idxs c res = (c2, Inr res') \<and>
           length res' = length res \<and>
           (\<forall>p<length idxs. res' ! (idxs ! p) = Some (feats ! (i + p))) \<and>
           (\<forall>k. k \<notin> set idxs \<longrightarrow> res' ! k = res ! k)"
  using assms
proof (induction idxs arbitrary: i c res)
  case Nil
  then show ?case by simp
next
  case (Cons idx rest)
  obtain c' where set: "cache_set c (key (items ! idx)) (feats ! i) = Inr c'"
    using cache_set_total [OF Cons.prems(1), of "key (items ! idx)" "feats ! i"] by blast
  then have m: "1 \<le> maxsize c'" using Cons.prems(1) by (simp add: cache_set_maxsize)
  let ?res = "res[idx := Some (feats ! i)]"
  have "Suc i + length rest \<le> length feats" using Cons.prems(2) by simp
  moreover have "\<forall>idx\<in>set rest. idx < length items \<and> idx < length ?res"
    using Cons.prems(3) by simp
  moreover have "distinct rest" using Cons.prems(4) by simp
  ultimately obtain c2 res' where
      run: "fill_loop key items feats (Suc i) rest c' ?res = (c2, Inr res')"
      and len: "length res' = length ?res"
      and hit: "\<forall>p<length rest. res' ! (rest ! p) = Some (feats ! (Suc i + p))"
      and other: "\<forall>k. k \<notin> set rest \<longrightarrow> res' ! k = ?res ! k"
    using Cons.IH [OF m] by blast
  have step: "fill_loop key items feats i (idx # rest) c res = (c2, Inr res')"
    using Cons.prems(2,3) set run by simp
  have first: "res' ! idx = Some (feats ! i)"
    using other Cons.prems(3,4) by simp
  have nth: "res' ! ((idx # rest) ! p) = Some (feats ! (i + p))" if "p < length (idx # rest)" for p
  proof (cases p)
    case 0
    with first show ?thesis by simp
  next
    case (Suc q)
    with that hit show ?thesis by simp
  qed
  have "res' ! k = res ! k" if "k \<notin> set (idx # rest)" for k
    using that other by simp
  with step len nth show ?case by auto
qed

lemma fill_loop_short:
  assumes "1 \<le> maxsize c" and "length feats < i + length idxs" and "i \<le> length feats"
    and "\<forall>idx\<in>set idxs. idx < length items \<and> idx < length res"
  shows "snd (fill_loop key items feats i idxs c res) = Inl IndexError"
  using assms
proof (induction idxs arbitrary: i c res)
  case Nil
  then show ?case by simp
next
  case (Cons idx rest)
  show ?case
  proof (cases "i < length feats")
    case False
    then show ?thesis by simp
  next
    case True
    obtain c' where set: "cache_set c (key (items ! idx)) (feats ! i) = Inr c'"
      using cache_set_total [OF Cons.prems(1), of "key (items ! idx)" "feats ! i"] by blast
    then have m: "1 \<le> maxsize c'" using Cons.prems(1) by (simp add: cache_set_maxsize)
    have a: "length feats < Suc i + length rest" using Cons.prems(2) by simp
    have b: "Suc i \<le> length feats" using True by simp
    have d: "\<forall>j\<in>set rest. j < length items \<and> j < length (res[idx := Some (feats ! i)])"
      using Cons.prems(4) by simp
    have "snd (fill_loop key items feats (Suc i) rest c' (res[idx := Some (feats ! i)])) = Inl IndexError"
      by (rule Cons.IH [OF m a b d])
    with True set Cons.prems(4) show ?thesis by simp
  qed
qed

lemma split_loop_start:
  "wf_cache c \<Longrightarrow>
   split_loop key 0 items c (replicate (length items) None) [] [] =
     (after_lookups key c items, map (\<lambda>t. lookup c (key t)) items,
      misses key c items, miss_indices key c 0 items)"
  using split_loop_result [of c "[]" 0 key items "[]" "[]"] by simp

lemma misses_Nil_lookup:
  "misses key c items = [] \<Longrightarrow> i < length items \<Longrightarrow> lookup c (key (items ! i)) \<noteq> None"
  by (auto simp: misses_def filter_empty_conv)

lemma batched_embedding_no_miss:
  assumes "wf_cache c" and "misses key c items = []"
  shows "batched_embedding key encode c items =
           \<lparr>calls = [], cache_after = after_lookups key c items,
            returned = Inr (map (\<lambda>t. lookup c (key t)) items)\<rparr>"
  using assms by (simp add: batched_embedding_def split_loop_start)

lemma batched_embedding_fail:
  assumes "wf_cache c" and "misses key c items \<noteq> []" and "encode (misses key c items) = Inl e"
  shows "batched_embedding key encode c items =
           \<lparr>calls = [misses key c items], cache_after = after_lookups key c items,
            returned = Inl e\<rparr>"
  using assms by (simp add: batched_embedding_def split_loop_start)

lemma batched_embedding_fill:
  assumes "wf_cache c" and "misses key c items \<noteq> []" and "encode (misses key c items) = Inr feats"
  shows "batched_embedding key encode c items =
           \<lparr>calls = [misses key c items],
            cache_after = fst (fill_loop key items feats 0 (miss_indices key c 0 items)
               (after_lookups key c items) (map (\<lambda>t. lookup c (key t)) items)),
            returned = snd (fill_loop key items feats 0 (miss_indices key c 0 items)
               (after_lookups key c items) (map (\<lambda>t. lookup c (key t)) items))\<rparr>"
  using assms by (simp add: batched_embedding_def split_loop_start split: prod.splits)

lemma batched_embedding_returns:
  assumes wf: "wf_cache c" and m: "1 \<le> maxsize c"
    and enc: "misses key c items = [] \<or>
              encode (misses key c items) = Inr feats \<and> length (misses key c items) \<le> length feats"
  shows "\<exists>out. returned (batched_embedding key encode c items) = Inr out \<and>
           length out = length items \<and>
           (\<forall>i<length items. out ! i =
              (case lookup c (key (items ! i)) of
                 Some v \<Rightarrow> Some v
               | None \<Rightarrow> Some (feats ! length (misses key c (take i items)))))"
proof (cases "misses key c items = []")
  case True
  let ?out = "map (\<lambda>t. lookup c (key t)) items"
  have "?out ! i = (case lookup c (key (items ! i)) of Some v \<Rightarrow> Some v
      | None \<Rightarrow> Some (feats ! length (misses key c (take i items))))" if "i < length items" for i
    using that misses_Nil_lookup [OF True that] by (auto split: option.splits)
  with True wf show ?thesis by (simp add: batched_embedding_no_miss)
next
  case False
  with enc have e: "encode (misses key c items) = Inr feats"
    and l: "length (misses key c items) \<le> length feats" by auto
  let ?idxs = "miss_indices key c 0 items"
  let ?res = "map (\<lambda>t. lookup c (key t)) items"
  let ?c1 = "after_lookups key c items"
  have m1: "1 \<le> maxsize ?c1" using wf m by (simp add: after_lookups_props)
  have "0 + length ?idxs \<le> length feats" using l by (simp add: length_miss_indices)
  moreover have "\<forall>idx\<in>set ?idxs. idx < length items \<and> idx < length ?res"
    by (simp add: set_miss_indices)
  ultimately obtain c2 out where
      run: "fill_loop key items feats 0 ?idxs ?c1 ?res = (c2, Inr out)"
      and len: "length out = length ?res"
      and hit: "\<forall>p<length ?idxs. out ! (?idxs ! p) = Some (feats ! (0 + p))"
      and other: "\<forall>k. k \<notin> set ?idxs \<longrightarrow> out ! k = ?res ! k"
    using fill_loop_ok [OF m1 _ _ distinct_miss_indices, of 0 key c 0 items feats items ?res key]
    by blast
  have "out ! i = (case lookup c (key (items ! i)) of Some v \<Rightarrow> Some v
      | None \<Rightarrow> Some (feats ! length (misses key c (take i items))))" if i: "i < length items" for i
  proof (cases "lookup c (key (items ! i))")
    case None
    from nth_miss_indices [of i items c key 0] i None
    have "length (misses key c (take i items)) < length ?idxs"
      and "?idxs ! length (misses key c (take i items)) = i" by simp_all
    with hit have "out ! i = Some (feats ! length (misses key c (take i items)))"
      by (metis add_0)
    with None show ?thesis by simp
  next
    case (Some v)
    then have "i \<notin> set ?idxs" by (simp add: set_miss_indices)
    with other i Some show ?thesis by simp
  qed
  with run len False e wf show ?thesis
    by (simp add: batched_embedding_fill)
qed

lemma cache_set_lookup:
  assumes "cache_set c k v = Inr c'" and "wf_cache c"
  shows "wf_cache c' \<and> lookup c' k = Some v"
proof (cases "pop k (cache c)")
  case None
  then have absent: "k \<notin> fst ` set (cache c)" by (simp add: pop_None_iff)
  show ?thesis
  proof (cases "cache c")
    case Nil
    with None assms show ?thesis
      by (auto simp: cache_set_def wf_cache_def lookup_def split: if_splits)
  next
    case (Cons x xs)
    with absent have "map_of xs k = None" "map_of (cache c) k = None"
      by (simp_all add: map_of_eq_None_iff)
    with None Cons assms absent show ?thesis
      by (auto simp: cache_set_def wf_cache_def lookup_def map_add_def split: if_splits)
  qed
next
  case (Some p)
  obtain w r where p: "p = (w, r)" by (cases p)
  with Some assms have keys: "distinct (map fst r)" "k \<notin> fst ` set r"
    by (auto simp: wf_cache_def dest: pop_Some_keys)
  then have "map_of r k = None" by (simp add: map_of_eq_None_iff)
  with Some p assms keys show ?thesis
    by (auto simp: cache_set_def wf_cache_def lookup_def map_add_def)
qed

lemma cache_get_miss: "lookup c k = None \<Longrightarrow> cache_get c k = (None, c)"
  by (simp add: cache_get_def lookup_def pop_None_map_of [symmetric])

lemma single_hit:
  assumes "wf_cache c" and "lookup c (key x) = Some v"
  shows "batched_embedding key encode c [x] =
           \<lparr>calls = [], cache_after = snd (cache_get c (key x)), returned = Inr [Some v]\<rparr>"
proof -
  from assms(2) have "misses key c [x] = []" by (simp add: misses_def)
  from batched_embedding_no_miss [OF assms(1) this, of encode] assms(2) show ?thesis
    by (simp add: after_lookups_def)
qed

lemma single_miss:
  assumes "wf_cache c" and "lookup c (key x) = None"
    and "returned (batched_embedding key encode c [x]) = Inr r"
  shows "\<exists>v c2. r = [Some v] \<and> cache_set c (key x) v = Inr c2 \<and>
           cache_after (batched_embedding key encode c [x]) = c2"
proof -
  from assms(2) have mi: "misses key c [x] = [x]" by (simp add: misses_def)
  have al: "after_lookups key c [x] = c"
    using assms(2) by (simp add: after_lookups_def cache_get_miss)
  show ?thesis
  proof (cases "encode [x]")
    case (Inl e)
    with assms(1,3) mi batched_embedding_fail [of c key "[x]" encode e] show ?thesis by simp
  next
    case (Inr feats)
    with assms(1) mi batched_embedding_fill [of c key "[x]" encode feats]
    have "batched_embedding key encode c [x] =
           \<lparr>calls = [[x]],
            cache_after = fst (fill_loop key [x] feats 0 [0] c [None]),
            returned = snd (fill_loop key [x] feats 0 [0] c [None])\<rparr>"
      using assms(2) by (simp add: al)
    with assms(3) show ?thesis
      by (auto split: if_splits sum.splits)
  qed
qed

lemma batched_embedding_twice:
  assumes wf: "wf_cache c" and ok: "returned (batched_embedding key encode c [x]) = Inr r"
  shows "returned (batched_embedding key encode' (cache_after (batched_embedding key encode c [x])) [x]) = Inr r \<and>
         calls (batched_embedding key encode' (cache_after (batched_embedding key encode c [x])) [x]) = []"
proof (cases "lookup c (key x)")
  case None
  from single_miss [OF wf None ok] obtain v c2 where
    r: "r = [Some v]" and set: "cache_set c (key x) v = Inr c2"
    and c2: "cache_after (batched_embedding key encode c [x]) = c2" by blast
  from cache_set_lookup [OF set wf] have "wf_cache c2" "lookup c2 (key x) = Some v" by simp_all
  then show ?thesis by (simp add: c2 r single_hit)
next
  case (Some v)
  let ?c1 = "snd (cache_get c (key x))"
  have first: "batched_embedding key encode c [x] =
      \<lparr>calls = [], cache_after = ?c1, returned = Inr [Some v]\<rparr>"
    using wf Some by (rule single_hit)
  have "wf_cache ?c1" using wf by (rule cache_get_wf)
  moreover have "lookup ?c1 (key x) = Some v" using wf Some by (simp add: cache_get_lookup)
  ultimately have "batched_embedding key encode' ?c1 [x] =
      \<lparr>calls = [], cache_after = snd (cache_get ?c1 (key x)), returned = Inr [Some v]\<rparr>"
    by (rule single_hit)
  with first ok show ?thesis by simp
qed

text \<open>
  Claim C5. When a single-item batch returns a result, submitting the same item again
  to the cache it left behind returns the same result, and the second call makes no call
  to the model: the theorem holds for any model \<open>encode2\<close> given to the second call. It
  is stated for \<^verbatim>\<open>batched_text_embedding\<close> and for \<^verbatim>\<open>batched_image_embedding\<close>.
\<close>

theorem idempotence:
  assumes "wf_cache tc" and "returned (batched_text_embedding encode tc [t]) = Inr r"
    and "wf_cache ic" and "returned (batched_image_embedding serialize_image encode_image ic [img]) = Inr r'"
  shows "returned (batched_text_embedding encode2
            (cache_after (batched_text_embedding encode tc [t])) [t]) = Inr r \<and>
         calls (batched_text_embedding encode2
            (cache_after (batched_text_embedding encode tc [t])) [t]) = [] \<and>
         returned (batched_image_embedding serialize_image encode_image2
            (cache_after (batched_image_embedding serialize_image encode_image ic [img])) [img]) = Inr r' \<and>
         calls (batched_image_embedding serialize_image encode_image2
            (cache_after (batched_image_embedding serialize_image encode_image ic [img])) [img]) = []"
  using batched_embedding_twice [of tc "\<lambda>t. t" encode t r encode2]
    batched_embedding_twice [of ic serialize_image encode_image img r' encode_image2] assms
  by (simp add: batched_text_embedding_def batched_image_embedding_def)

text \<open>
  Idempotence from the empty cache; the second call is given a model that always fails,
  and returns all the same.
\<close>

theorem idempotence_witness:
  "wf_cache (init 2 :: (string, nat) LRUCache) \<and>
   returned (batched_text_embedding (\<lambda>ts. Inr (map length ts)) (init 2) [''ab'']) = Inr [Some 2] \<and>
   returned (batched_text_embedding (\<lambda>ts. Inl ComputeError)
      (cache_after (batched_text_embedding (\<lambda>ts. Inr (map length ts)) (init 2) [''ab''])) [''ab'']) =
     Inr [Some 2] \<and>
   calls (batched_text_embedding (\<lambda>ts. Inl ComputeError)
      (cache_after (batched_text_embedding (\<lambda>ts. Inr (map length ts)) (init 2) [''ab''])) [''ab'']) = [] \<and>
   returned (batched_image_embedding length (\<lambda>ts. Inl ComputeError)
      (cache_after (batched_image_embedding length (\<lambda>ts. Inr (map length ts))
         (init 2 :: (nat, nat) LRUCache) [''abc''])) [''abc'']) =
     Inr [Some 3]"
proof -
  let ?enc = "\<lambda>ts::string list. (Inr (map length ts) :: error + nat list)"
  let ?fail = "\<lambda>ts::string list. (Inl ComputeError :: error + nat list)"
  have h1: "wf_cache (init 2 :: (string, nat) LRUCache)"
    and h3: "wf_cache (init 2 :: (nat, nat) LRUCache)"
    by (simp_all add: wf_cache_def init_def)
  have h2: "returned (batched_text_embedding ?enc (init 2) [''ab'']) = Inr [Some 2]"
    by (simp add: batched_text_embedding_def batched_embedding_def cache_get_def cache_set_def
        init_def)
  have h4: "returned (batched_image_embedding length ?enc (init 2 :: (nat, nat) LRUCache) [''abc'']) =
      Inr [Some 3]"
    by (simp add: batched_image_embedding_def batched_embedding_def cache_get_def cache_set_def
        init_def)
  from idempotence [of "init 2" ?enc "''ab''" "[Some 2]" "init 2" length ?enc "''abc''" "[Some 3]"
      ?fail ?fail, OF h1 h2 h3 h4] h1 h2
  show ?thesis by simp
qed

text \<open>
  Claim C9. When the model fails on the misses of a batch, the request fails with that
  error and returns no result; the model was called once, on the misses; and the cache
  holds the same bindings as before the call (no key is added, removed or given another
  value: only the recency order of the hits has changed). It is stated for both methods.
\<close>

theorem compute_failure:
  assumes "wf_cache tc" and "misses (\<lambda>t. t) tc text \<noteq> []"
    and "encode (misses (\<lambda>t. t) tc text) = Inl e"
    and "wf_cache ic" and "misses serialize_image ic images \<noteq> []"
    and "encode_image (misses serialize_image ic images) = Inl e'"
  shows "returned (batched_text_embedding encode tc text) = Inl e \<and>
         calls (batched_text_embedding encode tc text) = [misses (\<lambda>t. t) tc text] \<and>
         lookup (cache_after (batched_text_embedding encode tc text)) = lookup tc \<and>
         set (cache (cache_after (batched_text_embedding encode tc text))) = set (cache tc) \<and>
         returned (batched_image_embedding serialize_image encode_image ic images) = Inl e' \<and>
         calls (batched_image_embedding serialize_image encode_image ic images) =
           [misses serialize_image ic images] \<and>
         lookup (cache_after (batched_image_embedding serialize_image encode_image ic images)) =
           lookup ic \<and>
         set (cache (cache_after (batched_image_embedding serialize_image encode_image ic images))) =
           set (cache ic)"
  using assms
  by (simp add: batched_text_embedding_def batched_image_embedding_def batched_embedding_fail
      after_lookups_props)

text \<open>
  A failing model on a batch with one hit and one miss: the hit has been refreshed, and
  no binding was added for the miss.
\<close>

theorem compute_failure_witness:
  "wf_cache \<lparr>cache = [(''a'', 10::nat), (''c'', 30)], maxsize = 2\<rparr> \<and>
   misses (\<lambda>t. t) \<lparr>cache = [(''a'', 10::nat), (''c'', 30)], maxsize = 2\<rparr> [''a'', ''b''] = [''b''] \<and>
   misses length \<lparr>cache = [(1::nat, 10::nat)], maxsize = 2\<rparr> [''bb'', ''a''] = [''bb''] \<and>
   batched_text_embedding (\<lambda>ts. Inl ComputeError)
      \<lparr>cache = [(''a'', 10::nat), (''c'', 30)], maxsize = 2\<rparr> [''a'', ''b''] =
     \<lparr>calls = [[''b'']],
      cache_after = \<lparr>cache = [(''c'', 30), (''a'', 10)], maxsize = 2\<rparr>,
      returned = Inl ComputeError\<rparr> \<and>
   returned (batched_image_embedding length (\<lambda>ts. Inl ComputeError)
      \<lparr>cache = [(1::nat, 10::nat)], maxsize = 2\<rparr> [''bb'', ''a'']) = Inl ComputeError \<and>
   set (cache (cache_after (batched_image_embedding length (\<lambda>ts. Inl ComputeError)
      \<lparr>cache = [(1::nat, 10::nat)], maxsize = 2\<rparr> [''bb'', ''a'']))) = {(1, 10)}"
proof -
  let ?tc = "\<lparr>cache = [(''a'', 10::nat), (''c'', 30)], maxsize = 2\<rparr>"
  let ?ic = "\<lparr>cache = [(1::nat, 10::nat)], maxsize = 2\<rparr>"
  let ?fail = "\<lambda>ts::string list. (Inl ComputeError :: error + nat list)"
  have mt: "misses (\<lambda>t. t) ?tc [''a'', ''b''] = [''b'']"
    by (simp add: misses_def lookup_def)
  have mi: "misses length ?ic [''bb'', ''a''] = [''bb'']"
    by (simp add: misses_def lookup_def)
  have h1: "wf_cache ?tc" and h4: "wf_cache ?ic" by (simp_all add: wf_cache_def)
  have h2: "misses (\<lambda>t. t) ?tc [''a'', ''b''] \<noteq> []" and h5: "misses length ?ic [''bb'', ''a''] \<noteq> []"
    by (simp_all add: misses_def lookup_def)
  have h3: "?fail (misses (\<lambda>t. t) ?tc [''a'', ''b'']) = Inl ComputeError"
    and h6: "?fail (misses length ?ic [''bb'', ''a'']) = Inl ComputeError" by simp_all
  note t = compute_failure [of ?tc "[''a'', ''b'']" ?fail ComputeError ?ic length "[''bb'', ''a'']"
      ?fail ComputeError, OF h1 h2 h3 h4 h5 h6]
  have ev: "batched_text_embedding ?fail ?tc [''a'', ''b''] =
     \<lparr>calls = [[''b'']],
      cache_after = \<lparr>cache = [(''c'', 30), (''a'', 10)], maxsize = 2\<rparr>,
      returned = Inl ComputeError\<rparr>"
    by (simp add: batched_text_embedding_def batched_embedding_def cache_get_def)
  from t h1 mt mi ev show ?thesis by simp
qed

text \<open>
  Claim C1. With a capacity of at least 1, and a model that returns one row per miss,
  the returned list has the length of the input, and its slot \<open>i\<close> holds the cached value
  of item \<open>i\<close> when its key is in the cache, and otherwise the row the model computed
  for item \<open>i\<close>: the row at the rank of \<open>i\<close> among the misses, which were given to the
  model in input order. It is stated for both methods and for any hit and miss pattern.
\<close>

theorem order_preservation:
  assumes "wf_cache tc" and "1 \<le> maxsize tc"
    and "misses (\<lambda>t. t) tc text = [] \<or>
         encode (misses (\<lambda>t. t) tc text) = Inr feats \<and>
         length feats = length (misses (\<lambda>t. t) tc text)"
    and "wf_cache ic" and "1 \<le> maxsize ic"
    and "misses serialize_image ic images = [] \<or>
         encode_image (misses serialize_image ic images) = Inr feats' \<and>
         length feats' = length (misses serialize_image ic images)"
  shows "(\<exists>out. returned (batched_text_embedding encode tc text) = Inr out \<and>
            length out = length text \<and>
            (\<forall>i<length text. out ! i =
               (case lookup tc (text ! i) of
                  Some v \<Rightarrow> Some v
                | None \<Rightarrow> Some (feats ! length (misses (\<lambda>t. t) tc (take i text)))))) \<and>
         (\<exists>out. returned (batched_image_embedding serialize_image encode_image ic images) = Inr out \<and>
            length out = length images \<and>
            (\<forall>i<length images. out ! i =
               (case lookup ic (serialize_image (images ! i)) of
                  Some v \<Rightarrow> Some v
                | None \<Rightarrow> Some (feats' ! length (misses serialize_image ic (take i images))))))"
proof -
  have t: "misses (\<lambda>t. t) tc text = [] \<or>
         encode (misses (\<lambda>t. t) tc text) = Inr feats \<and>
         length (misses (\<lambda>t. t) tc text) \<le> length feats"
    using assms(3) by auto
  have i: "misses serialize_image ic images = [] \<or>
         encode_image (misses serialize_image ic images) = Inr feats' \<and>
         length (misses serialize_image ic images) \<le> length feats'"
    using assms(6) by auto
  from batched_embedding_returns [of tc "\<lambda>t. t" "text" encode feats, OF assms(1,2) t]
    batched_embedding_returns [of ic serialize_image images encode_image feats', OF assms(4,5) i]
  show ?thesis
    by (simp add: batched_text_embedding_def batched_image_embedding_def)
qed

text \<open>
  Order preservation on a text batch with a miss between two hits, and on an image batch
  that starts with a miss (the image key is the length of the string here).
\<close>

theorem order_preservation_witness:
  "wf_cache \<lparr>cache = [(''a'', 10::nat)], maxsize = 2\<rparr> \<and>
   (1::int) \<le> maxsize \<lparr>cache = [(''a'', 10::nat)], maxsize = 2\<rparr> \<and>
   misses (\<lambda>t. t) \<lparr>cache = [(''a'', 10::nat)], maxsize = 2\<rparr> [''a'', ''bb'', ''a''] = [''bb''] \<and>
   misses length \<lparr>cache = [(1::nat, 10::nat)], maxsize = 2\<rparr> [''ccc'', ''a''] = [''ccc''] \<and>
   returned (batched_text_embedding (\<lambda>ts. Inr (map length ts))
      \<lparr>cache = [(''a'', 10::nat)], maxsize = 2\<rparr> [''a'', ''bb'', ''a'']) =
     Inr [Some 10, Some 2, Some 10] \<and>
   returned (batched_image_embedding length (\<lambda>ts. Inr (map length ts))
      \<lparr>cache = [(1::nat, 10::nat)], maxsize = 2\<rparr> [''ccc'', ''a'']) =
     Inr [Some 3, Some 10]"
proof -
  let ?tc = "\<lparr>cache = [(''a'', 10::nat)], maxsize = 2\<rparr>"
  let ?ic = "\<lparr>cache = [(1::nat, 10::nat)], maxsize = 2\<rparr>"
  let ?enc = "\<lambda>ts::string list. (Inr (map length ts) :: error + nat list)"
  have mt: "misses (\<lambda>t. t) ?tc [''a'', ''bb'', ''a''] = [''bb'']"
    by (simp add: misses_def lookup_def)
  have mi: "misses length ?ic [''ccc'', ''a''] = [''ccc'']"
    by (simp add: misses_def lookup_def)
  have h1: "wf_cache ?tc" and h4: "wf_cache ?ic" by (simp_all add: wf_cache_def)
  have h2: "1 \<le> maxsize ?tc" and h5: "1 \<le> maxsize ?ic" by simp_all
  have h3: "misses (\<lambda>t. t) ?tc [''a'', ''bb'', ''a''] = [] \<or>
      ?enc (misses (\<lambda>t. t) ?tc [''a'', ''bb'', ''a'']) = Inr [2] \<and>
      length [2::nat] = length (misses (\<lambda>t. t) ?tc [''a'', ''bb'', ''a''])"
    by (simp add: mt)
  have h6: "misses length ?ic [''ccc'', ''a''] = [] \<or>
      ?enc (misses length ?ic [''ccc'', ''a'']) = Inr [3] \<and>
      length [3::nat] = length (misses length ?ic [''ccc'', ''a''])"
    by (simp add: misses_def lookup_def)
  note t = order_preservation [of ?tc "[''a'', ''bb'', ''a'']" ?enc "[2]" ?ic length
      "[''ccc'', ''a'']" ?enc "[3]", OF h1 h2 h3 h4 h5 h6]
  from t obtain out where out: "returned (batched_text_embedding ?enc ?tc [''a'', ''bb'', ''a'']) = Inr out"
    and len: "length out = length [''a'', ''bb'', ''a'']"
    and nth: "\<forall>i<length [''a'', ''bb'', ''a'']. out ! i =
               (case lookup ?tc ([''a'', ''bb'', ''a''] ! i) of
                  Some v \<Rightarrow> Some v
                | None \<Rightarrow> Some ([2] ! length (misses (\<lambda>t. t) ?tc (take i [''a'', ''bb'', ''a'']))))"
    by blast
  from nth have "out ! 0 = Some 10" "out ! 1 = Some 2" "out ! 2 = Some 10"
    by (simp_all add: lookup_def misses_def)
  with len have "out = [Some 10, Some 2, Some 10]"
    by (intro nth_equalityI) (auto simp: less_Suc_eq numeral_2_eq_2)
  with out have a: "returned (batched_text_embedding ?enc ?tc [''a'', ''bb'', ''a'']) =
     Inr [Some 10, Some 2, Some 10]" by simp
  from t obtain out' where out': "returned (batched_image_embedding length ?enc ?ic [''ccc'', ''a'']) = Inr out'"
    and len': "length out' = length [''ccc'', ''a'']"
    and nth': "\<forall>i<length [''ccc'', ''a'']. out' ! i =
               (case lookup ?ic (length ([''ccc'', ''a''] ! i)) of
                  Some v \<Rightarrow> Some v
                | None \<Rightarrow> Some ([3] ! length (misses length ?ic (take i [''ccc'', ''a'']))))"
    by blast
  from nth' have "out' ! 0 = Some 3" "out' ! 1 = Some 10"
    by (simp_all add: lookup_def misses_def)
  with len' have "out' = [Some 3, Some 10]"
    by (intro nth_equalityI) (auto simp: less_Suc_eq)
  with out' have b: "returned (batched_image_embedding length ?enc ?ic [''ccc'', ''a'']) =
     Inr [Some 3, Some 10]" by simp
  from h1 h2 mt mi a b show ?thesis by simp
qed

text \<open>
  Claim C6. A text cache of capacity 2 holds \<open>''a''\<close> with the value \<open>va\<close> (the claim's
  \<^verbatim>\<open>[1.0]\<close> is one such value). The batch \<^verbatim>\<open>["a", "b", "a"]\<close> makes one call to the model,
  with \<^verbatim>\<open>["b"]\<close>; with \<open>vb\<close> the row it returns, the output is \<open>va, vb, va\<close> and the
  cache afterwards holds exactly \<open>''a''\<close> with \<open>va\<close> and \<open>''b''\<close> with \<open>vb\<close>.
\<close>

theorem partial_hit_batch:
  assumes "encode [''b''] = Inr [vb]"
  shows "batched_text_embedding encode \<lparr>cache = [(''a'', va)], maxsize = 2\<rparr> [''a'', ''b'', ''a''] =
           \<lparr>calls = [[''b'']],
            cache_after = \<lparr>cache = [(''a'', va), (''b'', vb)], maxsize = 2\<rparr>,
            returned = Inr [Some va, Some vb, Some va]\<rparr>"
  using assms
  by (simp add: batched_text_embedding_def batched_embedding_def cache_get_def cache_set_def)

text \<open>
  The partial-hit batch with the preloaded value \<open>[1]\<close> and a model returning \<open>[2]\<close>.
\<close>

theorem partial_hit_batch_witness:
  "(\<lambda>ts. Inr (map (\<lambda>t. [2::int]) ts)) [''b''] = (Inr [[2]] :: error + int list list) \<and>
   batched_text_embedding (\<lambda>ts. Inr (map (\<lambda>t. [2::int]) ts))
       \<lparr>cache = [(''a'', [1])], maxsize = 2\<rparr> [''a'', ''b'', ''a''] =
     \<lparr>calls = [[''b'']],
      cache_after = \<lparr>cache = [(''a'', [1]), (''b'', [2])], maxsize = 2\<rparr>,
      returned = Inr [Some [1], Some [2], Some [1]]\<rparr>"
  using partial_hit_batch [of "\<lambda>ts. Inr (map (\<lambda>t. [2::int]) ts)" "[2]" "[1]"]
  by simp

text \<open>
  Claim C7. With capacity 10 and the empty cache, the batch \<^verbatim>\<open>["x", "x"]\<close> makes one call
  to the model with both occurrences; when the model returns the same row \<open>v\<close> for both,
  the output is \<open>v, v\<close> and the cache afterwards holds one entry, \<open>''x''\<close> with \<open>v\<close>.
\<close>

theorem duplicate_miss:
  assumes "encode [''x'', ''x''] = Inr [v, v]"
  shows "batched_text_embedding encode (init 10) [''x'', ''x''] =
           \<lparr>calls = [[''x'', ''x'']],
            cache_after = \<lparr>cache = [(''x'', v)], maxsize = 10\<rparr>,
            returned = Inr [Some v, Some v]\<rparr>"
  using assms
  by (simp add: batched_text_embedding_def batched_embedding_def cache_get_def cache_set_def init_def)

text \<open>
  The duplicate-miss batch with a model that maps each text to its length.
\<close>

theorem duplicate_miss_witness:
  "(\<lambda>ts. Inr (map length ts)) [''x'', ''x''] = (Inr [1, 1] :: error + nat list) \<and>
   batched_text_embedding (\<lambda>ts. Inr (map length ts)) (init 10) [''x'', ''x''] =
     \<lparr>calls = [[''x'', ''x'']],
      cache_after = \<lparr>cache = [(''x'', 1)], maxsize = 10\<rparr>,
      returned = Inr [Some 1, Some 1]\<rparr>"
  using duplicate_miss [of "\<lambda>ts. Inr (map length ts)" 1]
  by simp

text \<open>
  Against claim C8 as stated: the model returns two rows for the one miss of the batch;
  the lengths differ, yet the call returns an output, with no error; the second row is
  ignored.
\<close>

theorem surplus_rows_counterexample:
  "length [5, 6 :: nat] \<noteq> length (misses (\<lambda>t. t) (init 10 :: (string, nat) LRUCache) [''b'']) \<and>
   batched_text_embedding (\<lambda>ts. Inr [5, 6 :: nat]) (init 10) [''b''] =
     \<lparr>calls = [[''b'']],
      cache_after = \<lparr>cache = [(''b'', 5)], maxsize = 10\<rparr>,
      returned = Inr [Some 5]\<rparr>"
  by (simp add: batched_text_embedding_def batched_embedding_def cache_get_def cache_set_def
      init_def misses_def lookup_def)

lemma batched_embedding_short:
  assumes wf: "wf_cache c" and m: "1 \<le> maxsize c"
    and enc: "encode (misses key c items) = Inr feats"
    and short: "length feats < length (misses key c items)"
  shows "returned (batched_embedding key encode c items) = Inl IndexError"
proof -
  from short have ne: "misses key c items \<noteq> []" by auto
  let ?idxs = "miss_indices key c 0 items"
  let ?res = "map (\<lambda>t. lookup c (key t)) items"
  let ?c1 = "after_lookups key c items"
  have m1: "1 \<le> maxsize ?c1" using wf m by (simp add: after_lookups_props)
  have a: "length feats < 0 + length ?idxs" using short by (simp add: length_miss_indices)
  have b: "0 \<le> length feats" by simp
  have d: "\<forall>idx\<in>set ?idxs. idx < length items \<and> idx < length ?res"
    by (simp add: set_miss_indices)
  have "snd (fill_loop key items feats 0 ?idxs ?c1 ?res) = Inl IndexError"
    by (rule fill_loop_short [OF m1 a b d])
  with wf ne enc show ?thesis by (simp add: batched_embedding_fill)
qed

lemma batched_embedding_long:
  assumes wf: "wf_cache c" and m: "1 \<le> maxsize c"
    and enc: "encode (misses key c items) = Inr feats"
    and long: "length (misses key c items) \<le> length feats"
  shows "returned (batched_embedding key encode c items) =
           Inr (map (\<lambda>i. case lookup c (key (items ! i)) of
                          Some v \<Rightarrow> Some v
                        | None \<Rightarrow> Some (feats ! length (misses key c (take i items))))
                  [0..<length items])"
proof -
  from enc long have "misses key c items = [] \<or>
      encode (misses key c items) = Inr feats \<and> length (misses key c items) \<le> length feats"
    by simp
  from batched_embedding_returns [of c key items encode feats, OF wf m this]
  obtain out where out: "returned (batched_embedding key encode c items) = Inr out"
    and len: "length out = length items"
    and nth: "\<forall>i<length items. out ! i =
              (case lookup c (key (items ! i)) of
                 Some v \<Rightarrow> Some v
               | None \<Rightarrow> Some (feats ! length (misses key c (take i items))))"
    by blast
  have "out = map (\<lambda>i. case lookup c (key (items ! i)) of
                          Some v \<Rightarrow> Some v
                        | None \<Rightarrow> Some (feats ! length (misses key c (take i items))))
                  [0..<length items]"
    using len nth by (intro nth_equalityI) (simp_all split: option.split)
  with out show ?thesis by simp
qed

text \<open>
  Claim C8, amended. With a capacity of at least 1: when the model returns fewer rows
  than there are misses, the request is aborted with \<^verbatim>\<open>IndexError\<close> and no output is
  returned; when it returns at least as many, no error is raised, and the output has one
  slot per input item, a hit holding its cached value and a miss the row at its rank
  among the misses, so that surplus rows are ignored.
\<close>

theorem length_mismatch:
  assumes "wf_cache tc" and "1 \<le> maxsize tc"
    and "encode (misses (\<lambda>t. t) tc text) = Inr feats"
    and "wf_cache ic" and "1 \<le> maxsize ic"
    and "encode_image (misses serialize_image ic images) = Inr feats'"
  shows "returned (batched_text_embedding encode tc text) =
           (if length feats < length (misses (\<lambda>t. t) tc text) then Inl IndexError
            else Inr (map (\<lambda>i. case lookup tc (text ! i) of
                            Some v \<Rightarrow> Some v
                          | None \<Rightarrow> Some (feats ! length (misses (\<lambda>t. t) tc (take i text))))
                       [0..<length text])) \<and>
         returned (batched_image_embedding serialize_image encode_image ic images) =
           (if length feats' < length (misses serialize_image ic images) then Inl IndexError
            else Inr (map (\<lambda>i. case lookup ic (serialize_image (images ! i)) of
                            Some v \<Rightarrow> Some v
                          | None \<Rightarrow>
                              Some (feats' ! length (misses serialize_image ic (take i images))))
                       [0..<length images]))"
proof -
  have t: "returned (batched_embedding (\<lambda>t. t) encode tc text) =
           (if length feats < length (misses (\<lambda>t. t) tc text) then Inl IndexError
            else Inr (map (\<lambda>i. case lookup tc (text ! i) of
                            Some v \<Rightarrow> Some v
                          | None \<Rightarrow> Some (feats ! length (misses (\<lambda>t. t) tc (take i text))))
                       [0..<length text]))"
    using batched_embedding_short [of tc encode "\<lambda>t. t" "text" feats, OF assms(1,2,3)]
      batched_embedding_long [of tc encode "\<lambda>t. t" "text" feats, OF assms(1,2,3)]
    by (simp add: not_less)
  have i: "returned (batched_embedding serialize_image encode_image ic images) =
           (if length feats' < length (misses serialize_image ic images) then Inl IndexError
            else Inr (map (\<lambda>i. case lookup ic (serialize_image (images ! i)) of
                            Some v \<Rightarrow> Some v
                          | None \<Rightarrow>
                              Some (feats' ! length (misses serialize_image ic (take i images))))
                       [0..<length images]))"
    using batched_embedding_short [of ic encode_image serialize_image images feats', OF assms(4,5,6)]
      batched_embedding_long [of ic encode_image serialize_image images feats', OF assms(4,5,6)]
    by (simp add: not_less)
  from t i show ?thesis
    by (simp only: batched_text_embedding_def batched_image_embedding_def)
qed

text \<open>
  One row for two misses on the text path aborts; three rows for one miss on the image
  path return an output.
\<close>

theorem length_mismatch_witness:
  "wf_cache \<lparr>cache = [(''a'', 10::nat)], maxsize = 2\<rparr> \<and>
   (\<lambda>ts. Inr [7]) (misses (\<lambda>t. t) \<lparr>cache = [(''a'', 10::nat)], maxsize = 2\<rparr> [''b'', ''a'', ''c'']) =
     (Inr [7] :: error + nat list) \<and>
   (\<lambda>ts. Inr [7, 8, 9]) (misses length \<lparr>cache = [(1::nat, 10::nat)], maxsize = 2\<rparr> [''bb'', ''a'']) =
     (Inr [7, 8, 9] :: error + nat list) \<and>
   returned (batched_text_embedding (\<lambda>ts. Inr [7])
      \<lparr>cache = [(''a'', 10::nat)], maxsize = 2\<rparr> [''b'', ''a'', ''c'']) = Inl IndexError \<and>
   returned (batched_image_embedding length (\<lambda>ts. Inr [7, 8, 9])
      \<lparr>cache = [(1::nat, 10::nat)], maxsize = 2\<rparr> [''bb'', ''a'']) = Inr [Some 7, Some 10]"
  using length_mismatch [of "\<lparr>cache = [(''a'', 10::nat)], maxsize = 2\<rparr>"
      "\<lambda>ts. Inr [7]" "[''b'', ''a'', ''c'']" "[7]"
      "\<lparr>cache = [(1::nat, 10::nat)], maxsize = 2\<rparr>"
      "\<lambda>ts. Inr [7, 8, 9]" length "[''bb'', ''a'']" "[7, 8, 9]"]
  by (simp add: wf_cache_def misses_def lookup_def upt_rec)

end
